theory Spec2Isabelle
  imports Main "HOL-Library.Multiset"
begin

section \<open>Python values and errors\<close>

text \<open>
  The module is dynamically typed. Values whose structure the cursor never inspects
  (bind variables, routing scope, the components of a result tuple, a row producer) are
  elements of one universe of Python values. A statement text is a \<open>str\<close>: a sequence of
  Unicode code points. Column names and sort directions are kept as the bytes of their
  UTF-8 encoding, which is what \<open>ascii_lower\<close> works on.
\<close>

type_synonym unicode = "nat list"

text \<open>The \<open>str\<close> of an ASCII literal of the source.\<close>

definition unicode_of :: "string \<Rightarrow> unicode" where
  "unicode_of s = map of_char s"

datatype pyval =
    PyNone
  | PyBool bool
  | PyInt int
  | PyStr string
  | PyList "pyval list"
  | PyDict "(string \<times> pyval) list"

text \<open>
  Exceptions are values. \<open>DatabaseError\<close> and \<open>ProgrammingError\<close> carry the argument
  tuple they were constructed with; \<open>KeyError\<close> carries the missing key.
\<close>

datatype error =
    IndexError
  | ValueError
  | KeyError string
  | DatabaseError "unicode list"
  | ProgrammingError "unicode list"
  | OtherError string

section \<open>Row sequence utilities\<close>

subsection \<open>The library primitives used by the sort\<close>

text \<open>
  \<open>operator.itemgetter(i)\<close> applied to a row: the element at position \<open>i\<close>, or
  \<open>IndexError\<close> when the row is too short. The positions come from \<open>enumerate\<close> and are
  never negative.
\<close>

definition itemgetter :: "nat \<Rightarrow> 'a list \<Rightarrow> error + 'a" where
  "itemgetter i row = (if i < length row then Inr (row ! i) else Inl IndexError)"

text \<open>
  \<open>list.sort\<close> and \<open>sorted\<close> with a key function first compute the key of every
  element, left to right; the first key that raises aborts the sort.
\<close>

fun keys_of :: "('a \<Rightarrow> error + 'k) \<Rightarrow> 'a list \<Rightarrow> error + 'k list" where
  "keys_of key [] = Inr []"
| "keys_of key (x # xs) =
     (case key x of
        Inl e \<Rightarrow> Inl e
      | Inr k \<Rightarrow> (case keys_of key xs of Inl e \<Rightarrow> Inl e | Inr ks \<Rightarrow> Inr (k # ks)))"

text \<open>
  The sort itself is stable and works on the (key, element) pairs. With \<open>reverse=True\<close>
  the list is reversed, sorted, and reversed again, so that elements with equal keys keep
  their original order in the descending result as well.
\<close>

definition py_sorted :: "('a \<Rightarrow> error + 'k::linorder) \<Rightarrow> bool \<Rightarrow> 'a list \<Rightarrow> error + 'a list" where
  "py_sorted key reverse xs =
     (case keys_of key xs of
        Inl e \<Rightarrow> Inl e
      | Inr ks \<Rightarrow>
          Inr (map snd
            (if reverse then rev (sort_key fst (rev (zip ks xs)))
             else sort_key fst (zip ks xs))))"

subsection \<open>sort_row_list_by_columns\<close>

text \<open>
  The loop body of \<open>sort_row_list_by_columns\<close>, over the already reversed enumeration of
  \<open>sort_columns\<close>. Whether \<open>row_list\<close> is a list (sorted in place) or another sequence
  (sorted into a new list) makes no difference to the value returned.
\<close>

fun sort_passes :: "(nat \<times> 'c) list \<Rightarrow> 'c list \<Rightarrow> ('a::linorder) list list \<Rightarrow> error + 'a list list" where
  "sort_passes [] desc_columns row_list = Inr row_list"
| "sort_passes ((column_index, column_name) # ps) desc_columns row_list =
     (case py_sorted (itemgetter column_index) (column_name \<in> set desc_columns) row_list of
        Inl e \<Rightarrow> Inl e
      | Inr row_list' \<Rightarrow> sort_passes ps desc_columns row_list')"

definition sort_row_list_by_columns ::
  "('a::linorder) list list \<Rightarrow> 'c list \<Rightarrow> 'c list \<Rightarrow> error + 'a list list" where
  "sort_row_list_by_columns row_list sort_columns desc_columns =
     sort_passes (rev (enumerate 0 sort_columns)) desc_columns row_list"

subsection \<open>The order the sort is measured against\<close>

text \<open>
  \<open>lex_le ds r s\<close>: row \<open>r\<close> comes no later than row \<open>s\<close> in the lexicographic order over
  the leading \<open>length ds\<close> positions, position \<open>i\<close> compared descending when \<open>ds ! i\<close> holds
  and ascending otherwise.
\<close>

fun lex_le :: "bool list \<Rightarrow> ('a::linorder) list \<Rightarrow> 'a list \<Rightarrow> bool" where
  "lex_le (d # ds) (x # xs) (y # ys) =
     (if x = y then lex_le ds xs ys else if d then y < x else x < y)"
| "lex_le ds r s = True"

text \<open>The declared direction of every sort column.\<close>

definition directions :: "'c list \<Rightarrow> 'c list \<Rightarrow> bool list" where
  "directions sort_columns desc_columns = map (\<lambda>c. c \<in> set desc_columns) sort_columns"

text \<open>
  A stable sort by a key that never raises, ascending or (\<open>rv\<close>) descending: what
  \<open>py_sorted\<close> computes when every key is defined.
\<close>

definition stable_sort :: "('a \<Rightarrow> 'k::linorder) \<Rightarrow> bool \<Rightarrow> 'a list \<Rightarrow> 'a list" where
  "stable_sort f rv xs = (if rv then rev (sort_key f (rev xs)) else sort_key f xs)"

text \<open>
  The passes written out on row positions: the list sorted stably by position \<open>i\<close> in
  direction \<open>d\<close>, after it has been sorted by the positions that follow \<open>i\<close>.
\<close>

fun sort_positions_from :: "nat \<Rightarrow> bool list \<Rightarrow> ('a::linorder) list list \<Rightarrow> 'a list list" where
  "sort_positions_from i [] rows = rows"
| "sort_positions_from i (d # ds) rows =
     stable_sort (\<lambda>r. r ! i) d (sort_positions_from (Suc i) ds rows)"

section \<open>Aggregate emulation\<close>

text \<open>
  \<open>ascii_lower\<close>: the text is encoded as UTF-8 and lower-cased as bytes, which changes
  the letters \<open>A\<close> to \<open>Z\<close> and nothing else. A string here is the byte sequence.
\<close>

definition ascii_lower_char :: "char \<Rightarrow> char" where
  "ascii_lower_char c =
     (let n = (of_char c :: nat) in if 65 \<le> n \<and> n \<le> 90 then char_of (n + 32) else c)"

definition ascii_lower :: "string \<Rightarrow> string" where
  "ascii_lower s = map ascii_lower_char s"

text \<open>
  An entry of \<open>order_by_columns\<close> is a tuple or list (\<open>Seq\<close>), read at positions 0 and 1,
  or anything else (\<open>Bare\<close>), taken as the column itself.
\<close>

datatype order_clause = Seq "string list" | Bare string

text \<open>
  The first loop of \<open>fetch_aggregate\<close>, with the two lists it appends to as accumulators.
  Reading position 0 of an empty sequence or position 1 of a sequence shorter than two
  raises \<open>IndexError\<close>.
\<close>

fun order_columns ::
  "order_clause list \<Rightarrow> string list \<Rightarrow> string list \<Rightarrow> error + (string list \<times> string list)" where
  "order_columns [] sort_columns desc_columns = Inr (sort_columns, desc_columns)"
| "order_columns (Seq [] # rest) sort_columns desc_columns = Inl IndexError"
| "order_columns (Seq [c] # rest) sort_columns desc_columns = Inl IndexError"
| "order_columns (Seq (c # d # _) # rest) sort_columns desc_columns =
     order_columns rest (sort_columns @ [c])
       (if ascii_lower d = ''desc'' then desc_columns @ [c] else desc_columns)"
| "order_columns (Bare c # rest) sort_columns desc_columns =
     order_columns rest (sort_columns @ [c]) desc_columns"

text \<open>
  The slice \<open>xs[:limit]\<close>: a negative \<open>limit\<close> counts from the end.
\<close>

definition slice_to :: "int \<Rightarrow> 'a list \<Rightarrow> 'a list" where
  "slice_to limit xs =
     (if 0 \<le> limit then take (nat limit) xs else take (nat (int (length xs) + limit)) xs)"

text \<open>
  \<open>itertools.islice(xs, limit)\<close> accepts a stop from 0 to \<open>sys.maxsize\<close> and refuses any
  other integer with \<open>ValueError\<close>, when it is constructed. \<open>sys.maxsize\<close> is that of a
  64-bit build.
\<close>

definition sys_maxsize :: int where
  "sys_maxsize = 2 ^ 63 - 1"

definition islice :: "'a list \<Rightarrow> int \<Rightarrow> error + 'a list" where
  "islice xs limit =
     (if limit < 0 \<or> sys_maxsize < limit then Inl ValueError else Inr (take (nat limit) xs))"

text \<open>
  \<open>fetch_aggregate\<close>. The argument \<open>rows\<close> is what \<open>self.fetchall()\<close> returns; \<open>fetchall\<close>
  belongs to the base cursor.
\<close>

definition fetch_aggregate ::
  "('a::linorder) list list \<Rightarrow> order_clause list \<Rightarrow> int \<Rightarrow> error + 'a list list" where
  "fetch_aggregate rows order_by_columns limit =
     (case order_columns order_by_columns [] [] of
        Inl e \<Rightarrow> Inl e
      | Inr (sort_columns, desc_columns) \<Rightarrow>
          (case (if sort_columns \<noteq> []
                 then (case sort_row_list_by_columns rows sort_columns desc_columns of
                         Inl e \<Rightarrow> Inl e
                       | Inr srt \<Rightarrow> Inr (slice_to limit srt))
                 else islice rows limit) of
             Inl e \<Rightarrow> Inl e
           | Inr sorted_rows \<Rightarrow> Inr (map (drop (length order_by_columns)) sorted_rows)))"

section \<open>Statement classification\<close>

text \<open>
  \<open>write_sql_pattern\<close> is the regular expression \<^verbatim>\<open>\s*(insert|update|delete)\<close> with
  \<open>re.IGNORECASE\<close>, a \<open>str\<close> pattern, matched at the start of the text.

  For a \<open>str\<close> pattern \<^verbatim>\<open>\s\<close> matches the Unicode whitespace characters: the ASCII ones
  (9 to 13 and 32), the separators 28 to 31, U+0085, U+00A0, U+1680, U+2000 to U+200A,
  U+2028, U+2029, U+202F, U+205F and U+3000.
\<close>

definition is_space :: "nat \<Rightarrow> bool" where
  "is_space c =
     (c \<in> set [9, 10, 11, 12, 13, 28, 29, 30, 31, 32, 133, 160, 5760,
                8232, 8233, 8239, 8287, 12288] \<or>
      (8192 \<le> c \<and> c \<le> 8202))"

text \<open>
  With \<open>re.IGNORECASE\<close> a lower-case ASCII letter \<open>p\<close> of the pattern matches the code
  points whose lower-case form is \<open>p\<close> or one of the letters the module counts as its
  equivalents: \<open>p\<close> itself, its upper-case form, and further U+0130 and U+0131 for \<open>i\<close>,
  U+017F for \<open>s\<close> and U+212A for \<open>k\<close>.
\<close>

definition ignorecase_matches :: "nat \<Rightarrow> nat \<Rightarrow> bool" where
  "ignorecase_matches p c =
     (c = p \<or> c + 32 = p \<or>
      (p = 105 \<and> (c = 304 \<or> c = 305)) \<or>
      (p = 115 \<and> c = 383) \<or>
      (p = 107 \<and> c = 8490))"

text \<open>A keyword of the pattern matched at the start of \<open>s\<close>.\<close>

fun match_ignorecase :: "unicode \<Rightarrow> unicode \<Rightarrow> bool" where
  "match_ignorecase [] s = True"
| "match_ignorecase (p # ps) [] = False"
| "match_ignorecase (p # ps) (c # cs) = (ignorecase_matches p c \<and> match_ignorecase ps cs)"

definition write_keywords :: "unicode list" where
  "write_keywords = [unicode_of ''insert'', unicode_of ''update'', unicode_of ''delete'']"

text \<open>
  No keyword starts with whitespace, so the match succeeds exactly when a keyword
  follows the longest run of leading whitespace.
\<close>

definition write_sql_pattern_match :: "unicode \<Rightarrow> bool" where
  "write_sql_pattern_match sql =
     (let rest = dropWhile is_space sql
      in list_ex (\<lambda>keyword. match_ignorecase keyword rest) write_keywords)"

text \<open>
  The property the claims name: the text begins, after leading whitespace and ignoring
  case, with one of the three keywords. Whitespace and case are those of the pattern.
\<close>

definition begins_with_write_keyword :: "unicode \<Rightarrow> bool" where
  "begins_with_write_keyword sql =
     (\<exists>ws w rest keyword. sql = ws @ w @ rest \<and> (\<forall>c\<in>set ws. is_space c) \<and>
        keyword \<in> set write_keywords \<and> list_all2 ignorecase_matches keyword w)"

section \<open>Cursors\<close>

subsection \<open>State\<close>

text \<open>
  The attributes shared by both cursor classes, then those of \<open>VTGateCursor\<close> and of
  \<open>StreamVTGateCursor\<close>. A result set is the tuple (results, rowcount, lastrowid,
  description). \<open>result_set_index\<close> is only ever assigned \<open>None\<close>, 0 or its successor.
\<close>

type_synonym result_set = "pyval \<times> pyval \<times> pyval \<times> pyval"

record cursor_base =
  writable :: bool
  description :: pyval
  keyranges :: pyval
  keyspace :: pyval
  keyspace_ids :: pyval
  routing :: pyval
  tablet_type :: pyval
  effective_caller_id :: pyval

record vtgate_cursor = cursor_base +
  index :: pyval
  lastrowid :: pyval
  results :: pyval
  rowcount :: pyval
  as_transaction :: bool
  result_sets :: "result_set list"
  result_set_index :: "nat option"

record stream_vtgate_cursor = cursor_base +
  generator :: pyval

subsection \<open>The connection\<close>

text \<open>
  The connection is a collaborator: each of its primitives either raises or returns. The
  arguments of \<open>_execute\<close> and \<open>_stream_execute\<close> are (sql, bind_variables, keyspace,
  tablet_type, keyspace_ids, keyranges, not_in_transaction, effective_caller_id); those of
  \<open>_execute_entity_ids\<close> are (sql, bind_variables, keyspace, tablet_type,
  entity_keyspace_id_map, entity_column_name, not_in_transaction, effective_caller_id);
  those of \<open>_execute_batch\<close> are (sql_list, bind_variables_list, keyspace_list,
  keyspace_ids_list, tablet_type, as_transaction, effective_caller_id).
\<close>

type_synonym execute_args =
  "unicode \<times> pyval \<times> pyval \<times> pyval \<times> pyval \<times> pyval \<times> bool \<times> pyval"

type_synonym batch_args =
  "pyval list \<times> pyval list \<times> pyval list \<times> pyval list \<times> pyval \<times> bool \<times> pyval"

record connection =
  conn_execute :: "execute_args \<Rightarrow> error + result_set"
  conn_execute_entity_ids :: "execute_args \<Rightarrow> error + result_set"
  conn_execute_batch :: "batch_args \<Rightarrow> error + result_set list"
  conn_stream_execute :: "execute_args \<Rightarrow> error + (pyval \<times> pyval)"

text \<open>
  What a cursor operation hands to its collaborators, in order. An operation yields the
  value it returns or the exception it raises, the cursor as it leaves it, and these calls.
\<close>

datatype call =
    TransactionHandler unicode
  | Execute execute_args
  | ExecuteEntityIds execute_args
  | ExecuteBatch batch_args
  | StreamExecute execute_args

type_synonym ('r, 'c) outcome = "(error + 'r) \<times> 'c \<times> call list"

subsection \<open>The base cursor\<close>

text \<open>
  Modelled from the spec: \<open>_clear_list_state\<close> of the base list cursor, which is not among
  the sources. The spec has \<open>execute\<close> and the batch advance "clear current fetch state",
  the current result state being \<open>results\<close>, \<open>rowCount\<close>, \<open>lastRowId\<close> and \<open>description\<close>,
  and has \<open>execute\<close> clear "not batch state directly". \<open>nextset\<close> itself reads
  \<open>result_set_index\<close> and \<open>result_sets\<close> right after this call.
\<close>

definition clear_list_state :: "vtgate_cursor \<Rightarrow> vtgate_cursor" where
  "clear_list_state self =
     self\<lparr>description := PyNone, lastrowid := PyNone, rowcount := PyNone, results := PyNone\<rparr>"

text \<open>
  Modelled from the spec: \<open>_clear_stream_state\<close> of the base stream cursor, which is not
  among the sources. The spec has the streaming \<open>execute\<close> "clear prior stream state", the
  state of a streaming cursor being its row producer and \<open>description\<close>.
\<close>

definition clear_stream_state :: "stream_vtgate_cursor \<Rightarrow> stream_vtgate_cursor" where
  "clear_stream_state self = self\<lparr>description := PyNone, generator := PyNone\<rparr>"

text \<open>
  Modelled from the spec: \<open>close\<close> of the base list cursor, which is not among the
  sources. The spec has it release "any underlying fetch resources".
\<close>

definition base_close :: "vtgate_cursor \<Rightarrow> vtgate_cursor" where
  "base_close self = self\<lparr>results := PyNone\<rparr>"

text \<open>
  Modelled from the spec: \<open>_handle_transaction_sql\<close> of the base cursor, which is not among
  the sources. The spec has a statement recognised as a transaction-control directive when
  its leading token is \<open>begin\<close>, \<open>commit\<close> or \<open>rollback\<close>, case-insensitively, and has it
  handed to the transaction handler, which consumes it.
\<close>

definition leading_token :: "unicode \<Rightarrow> unicode" where
  "leading_token sql = takeWhile (\<lambda>c. \<not> is_space c) (dropWhile is_space sql)"

definition lower_ascii :: "nat \<Rightarrow> nat" where
  "lower_ascii c = (if 65 \<le> c \<and> c \<le> 90 then c + 32 else c)"

definition handle_transaction_sql :: "unicode \<Rightarrow> bool" where
  "handle_transaction_sql sql =
     (map lower_ascii (leading_token sql)
        \<in> set [unicode_of ''begin'', unicode_of ''commit'', unicode_of ''rollback''])"

subsection \<open>VTGateCursor\<close>

definition is_writable :: "'z cursor_base_scheme \<Rightarrow> bool" where
  "is_writable self = writable self"

definition clear_batch_state :: "vtgate_cursor \<Rightarrow> vtgate_cursor" where
  "clear_batch_state self = self\<lparr>result_sets := [], result_set_index := None\<rparr>"

text \<open>The constructor; \<open>effective_caller_id\<close> is set by the base class.\<close>

definition VTGateCursor_init ::
  "pyval \<Rightarrow> pyval \<Rightarrow> pyval \<Rightarrow> pyval \<Rightarrow> bool \<Rightarrow> bool \<Rightarrow> vtgate_cursor" where
  "VTGateCursor_init ks tt ks_ids kr w as_tx =
     clear_batch_state
       \<lparr>writable = w, description = PyNone, keyranges = kr, keyspace = ks,
        keyspace_ids = ks_ids, routing = PyNone, tablet_type = tt,
        effective_caller_id = PyNone,
        index = PyNone, lastrowid = PyNone, results = PyNone, rowcount = PyInt 0,
        as_transaction = as_tx, result_sets = [], result_set_index = None\<rparr>"

definition VTGateCursor_execute ::
  "connection \<Rightarrow> vtgate_cursor \<Rightarrow> unicode \<Rightarrow> pyval \<Rightarrow> (pyval, vtgate_cursor) outcome" where
  "VTGateCursor_execute conn self0 sql bind_variables =
     (let self = clear_list_state self0 in
      if handle_transaction_sql sql then (Inr PyNone, self, [TransactionHandler sql])
      else
        let write_query = write_sql_pattern_match sql in
        if write_query \<and> \<not> is_writable self
        then (Inl (DatabaseError [unicode_of ''DML on a non-writable cursor'', sql]), self, [])
        else
          let args = (sql, bind_variables, keyspace self, tablet_type self,
                      keyspace_ids self, keyranges self, \<not> is_writable self,
                      effective_caller_id self)
          in case conn_execute conn args of
               Inl e \<Rightarrow> (Inl e, self, [Execute args])
             | Inr (res, rc, lid, descr) \<Rightarrow>
                 (Inr rc,
                  self\<lparr>results := res, rowcount := rc, lastrowid := lid, description := descr\<rparr>,
                  [Execute args]))"

definition execute_entity_ids ::
  "connection \<Rightarrow> vtgate_cursor \<Rightarrow> unicode \<Rightarrow> pyval \<Rightarrow> pyval \<Rightarrow> pyval \<Rightarrow>
     (pyval, vtgate_cursor) outcome" where
  "execute_entity_ids conn self0 sql bind_variables entity_keyspace_id_map entity_column_name =
     (let self = clear_list_state self0;
          write_query = write_sql_pattern_match sql
      in if write_query
         then (Inl (DatabaseError
                     [unicode_of ''execute_entity_ids is not allowed for write queries'']),
               self, [])
         else
           let args = (sql, bind_variables, keyspace self, tablet_type self,
                       entity_keyspace_id_map, entity_column_name, \<not> is_writable self,
                       effective_caller_id self)
           in case conn_execute_entity_ids conn args of
                Inl e \<Rightarrow> (Inl e, self, [ExecuteEntityIds args])
              | Inr (res, rc, lid, descr) \<Rightarrow>
                  (Inr rc,
                   self\<lparr>results := res, rowcount := rc, lastrowid := lid, description := descr\<rparr>,
                   [ExecuteEntityIds args]))"

definition close :: "vtgate_cursor \<Rightarrow> vtgate_cursor" where
  "close self = clear_batch_state (base_close self)"

text \<open>
  \<open>nextset\<close> returns \<open>True\<close> or \<open>None\<close>.
\<close>

definition nextset :: "vtgate_cursor \<Rightarrow> pyval \<times> vtgate_cursor" where
  "nextset self0 =
     (let i = (case result_set_index self0 of None \<Rightarrow> 0 | Some j \<Rightarrow> j + 1);
          self = clear_list_state (self0\<lparr>result_set_index := Some i\<rparr>)
      in if i < length (result_sets self)
         then (case result_sets self ! i of
                 (res, rc, lid, descr) \<Rightarrow>
                   (PyBool True,
                    self\<lparr>results := res, rowcount := rc, lastrowid := lid,
                         description := descr\<rparr>))
         else (PyNone, clear_batch_state self))"

text \<open>Truth of a value in a condition, and a dictionary read that raises on a missing key.\<close>

fun truthy :: "pyval \<Rightarrow> bool" where
  "truthy PyNone = False"
| "truthy (PyBool b) = b"
| "truthy (PyInt n) = (n \<noteq> 0)"
| "truthy (PyStr s) = (s \<noteq> [])"
| "truthy (PyList xs) = (xs \<noteq> [])"
| "truthy (PyDict kvs) = (kvs \<noteq> [])"

fun getitems :: "string \<Rightarrow> (string \<times> pyval) list list \<Rightarrow> error + pyval list" where
  "getitems k [] = Inr []"
| "getitems k (params # rest) =
     (case map_of params k of
        None \<Rightarrow> Inl (KeyError k)
      | Some v \<Rightarrow> (case getitems k rest of Inl e \<Rightarrow> Inl e | Inr vs \<Rightarrow> Inr (v # vs)))"

definition executemany ::
  "connection \<Rightarrow> vtgate_cursor \<Rightarrow> pyval \<Rightarrow> (string \<times> pyval) list list \<Rightarrow>
     (pyval, vtgate_cursor) outcome" where
  "executemany conn self0 sql params_list =
     (case (if truthy sql then Inr (replicate (length params_list) sql)
            else getitems ''sql'' params_list) of
        Inl e \<Rightarrow> (Inl e, self0, [])
      | Inr sql_list \<Rightarrow>
     (case getitems ''bind_variables'' params_list of
        Inl e \<Rightarrow> (Inl e, self0, [])
      | Inr bind_variables_list \<Rightarrow>
     (case getitems ''keyspace'' params_list of
        Inl e \<Rightarrow> (Inl e, self0, [])
      | Inr keyspace_list \<Rightarrow>
     (case getitems ''keyspace_ids'' params_list of
        Inl e \<Rightarrow> (Inl e, self0, [])
      | Inr keyspace_ids_list \<Rightarrow>
          (let self = clear_batch_state self0;
               args = (sql_list, bind_variables_list, keyspace_list, keyspace_ids_list,
                       tablet_type self, as_transaction self, effective_caller_id self)
           in case conn_execute_batch conn args of
                Inl e \<Rightarrow> (Inl e, self, [ExecuteBatch args])
              | Inr rs \<Rightarrow>
                  (Inr PyNone, snd (nextset (self\<lparr>result_sets := rs\<rparr>)),
                   [ExecuteBatch args]))))))"

text \<open>
  The caller's loop: \<open>nextset\<close> called \<open>k\<close> times in a row, with what each call returned.
\<close>

fun nextsets :: "nat \<Rightarrow> vtgate_cursor \<Rightarrow> pyval list \<times> vtgate_cursor" where
  "nextsets 0 self = ([], self)"
| "nextsets (Suc k) self =
     (case nextset self of
        (r, self') \<Rightarrow> (case nextsets k self' of (rs, self'') \<Rightarrow> (r # rs, self'')))"

subsection \<open>StreamVTGateCursor\<close>

definition StreamVTGateCursor_init ::
  "pyval \<Rightarrow> pyval \<Rightarrow> pyval \<Rightarrow> pyval \<Rightarrow> bool \<Rightarrow> stream_vtgate_cursor" where
  "StreamVTGateCursor_init ks tt ks_ids kr w =
     \<lparr>writable = w, description = PyNone, keyranges = kr, keyspace = ks,
      keyspace_ids = ks_ids, routing = PyNone, tablet_type = tt,
      effective_caller_id = PyNone, generator = PyNone\<rparr>"

definition StreamVTGateCursor_execute ::
  "connection \<Rightarrow> stream_vtgate_cursor \<Rightarrow> unicode \<Rightarrow> pyval \<Rightarrow>
     (pyval, stream_vtgate_cursor) outcome" where
  "StreamVTGateCursor_execute conn self0 sql bind_variables =
     (if writable self0
      then (Inl (ProgrammingError [unicode_of ''Streaming query cannot be writable'']), self0, [])
      else
        let self = clear_stream_state self0;
            args = (sql, bind_variables, keyspace self, tablet_type self,
                    keyspace_ids self, keyranges self, \<not> is_writable self,
                    effective_caller_id self)
        in case conn_stream_execute conn args of
             Inl e \<Rightarrow> (Inl e, self, [StreamExecute args])
           | Inr (g, descr) \<Rightarrow>
               (Inr (PyInt 0), self\<lparr>generator := g, description := descr\<rparr>,
                [StreamExecute args]))"

subsection \<open>A connection and cursors to run the operations on\<close>

text \<open>
  A connection that answers every call: one row for a single statement, and for a batch
  one result set per statement, numbered from 0.
\<close>

definition example_result_set :: "int \<Rightarrow> result_set" where
  "example_result_set n = (PyList [PyList [PyInt n]], PyInt 1, PyNone, PyList [PyStr ''id''])"

definition example_connection :: connection where
  "example_connection =
     \<lparr>conn_execute = (\<lambda>args. Inr (example_result_set 7)),
      conn_execute_entity_ids = (\<lambda>args. Inr (example_result_set 8)),
      conn_execute_batch =
        (\<lambda>(sql_list, rest). Inr (map (\<lambda>i. example_result_set (int i)) [0..<length sql_list])),
      conn_stream_execute = (\<lambda>args. Inr (PyList [PyList [PyInt 9]], PyList [PyStr ''id'']))\<rparr>"

definition example_cursor :: "bool \<Rightarrow> vtgate_cursor" where
  "example_cursor w =
     VTGateCursor_init (PyStr ''ks'') (PyStr ''replica'') (PyList [PyStr ''k'']) PyNone w False"

definition example_stream_cursor :: "bool \<Rightarrow> stream_vtgate_cursor" where
  "example_stream_cursor w =
     StreamVTGateCursor_init (PyStr ''ks'') (PyStr ''replica'') (PyList [PyStr ''k'']) PyNone w"

definition example_params :: "(string \<times> pyval) list" where
  "example_params =
     [(''bind_variables'', PyDict []), (''keyspace'', PyStr ''ks''),
      (''keyspace_ids'', PyList [PyStr ''k''])]"

section \<open>Properties of the row sort\<close>

subsection \<open>One pass is a stable sort\<close>

lemma keys_of_total:
  "\<forall>x\<in>set xs. key x = Inr (f x) \<Longrightarrow> keys_of key xs = Inr (map f xs)"
  by (induction xs) auto

lemma insort_key_decorated:
  "\<forall>p\<in>set ps. fst p = f (snd p) \<Longrightarrow>
   map snd (insort_key fst (f x, x) ps) = insort_key f x (map snd ps)"
  by (induction ps) auto

lemma sort_key_decorated:
  "\<forall>p\<in>set ps. fst p = f (snd p) \<Longrightarrow> map snd (sort_key fst ps) = sort_key f (map snd ps)"
proof (induction ps)
  case Nil
  then show ?case by simp
next
  case (Cons p ps)
  obtain k x where p: "p = (k, x)" by (cases p)
  with Cons.prems have k: "k = f x" by simp
  have "\<forall>q\<in>set (sort_key fst ps). fst q = f (snd q)" using Cons.prems by simp
  then show ?case using Cons p k by (simp add: insort_key_decorated)
qed

lemma decorated_zip: "\<forall>p\<in>set (zip (map f xs) xs). fst p = f (snd p)"
  by (induction xs) auto

lemma py_sorted_total:
  assumes "\<forall>x\<in>set xs. key x = Inr (f x)"
  shows "py_sorted key rv xs = Inr (stable_sort f rv xs)"
proof -
  have z: "map snd (zip (map f xs) xs) = xs" by (induction xs) auto
  have d: "\<forall>p\<in>set (zip (map f xs) xs). fst p = f (snd p)" by (rule decorated_zip)
  have d': "\<forall>p\<in>set (rev (zip (map f xs) xs)). fst p = f (snd p)" using d by simp
  have a: "map snd (sort_key fst (zip (map f xs) xs)) = sort_key f xs"
    using sort_key_decorated[OF d] z by simp
  have zr: "map snd (rev (zip (map f xs) xs)) = rev xs"
    using z by (simp add: rev_map[symmetric])
  have b: "map snd (rev (sort_key fst (rev (zip (map f xs) xs)))) = rev (sort_key f (rev xs))"
    using sort_key_decorated[OF d'] zr by (simp only: rev_map[symmetric])
  show ?thesis
    using keys_of_total[OF assms] a b by (simp add: py_sorted_def stable_sort_def)
qed

lemma stable_sort_mset: "mset (stable_sort f rv xs) = mset xs"
  by (simp add: stable_sort_def)

lemma stable_sort_set: "set (stable_sort f rv xs) = set xs"
  by (simp add: stable_sort_def)

lemma stable_sort_filter:
  "filter (\<lambda>y. f y = k) (stable_sort f rv xs) = filter (\<lambda>y. f y = k) xs"
  by (simp add: stable_sort_def sort_key_stable rev_filter[symmetric])

lemma stable_sort_sorted:
  "sorted_wrt (\<lambda>a b. if rv then f b \<le> f a else f a \<le> f b) (stable_sort f rv xs)"
proof (cases rv)
  case True
  have "sorted (map f (sort_key f (rev xs)))" by simp
  then have "sorted_wrt (\<lambda>a b. f a \<le> f b) (sort_key f (rev xs))"
    by (simp add: sorted_map)
  then have "sorted_wrt (\<lambda>a b. f b \<le> f a) (rev (sort_key f (rev xs)))"
    by (simp add: sorted_wrt_rev)
  with True show ?thesis by (simp add: stable_sort_def)
next
  case False
  have "sorted (map f (sort_key f xs))" by simp
  then have "sorted_wrt (\<lambda>a b. f a \<le> f b) (sort_key f xs)"
    by (simp add: sorted_map)
  with False show ?thesis by (simp add: stable_sort_def)
qed

lemma sorted_lex_step:
  assumes "sorted_wrt (\<lambda>a b. if rv then f b \<le> f a else f a \<le> f b) ys"
    and "\<And>v. sorted_wrt R (filter (\<lambda>y. f y = v) ys)"
  shows "sorted_wrt (\<lambda>a b. if f a = f b then R a b else if rv then f b < f a else f a < (f b :: 'k::linorder)) ys"
  using assms
proof (induction ys)
  case Nil
  then show ?case by simp
next
  case (Cons y ys)
  have tl: "\<And>v. sorted_wrt R (filter (\<lambda>y. f y = v) ys)"
  proof -
    fix v
    from Cons.prems(2)[of v] show "sorted_wrt R (filter (\<lambda>y. f y = v) ys)"
      by (cases "f y = v") simp_all
  qed
  have hd: "\<forall>z\<in>set ys. if f y = f z then R y z else if rv then f z < f y else f y < f z"
  proof
    fix z assume z: "z \<in> set ys"
    show "if f y = f z then R y z else if rv then f z < f y else f y < f z"
    proof (cases "f y = f z")
      case True
      from Cons.prems(2)[of "f y"] have "\<forall>w\<in>set (filter (\<lambda>u. f u = f y) ys). R y w" by simp
      with z True show ?thesis by simp
    next
      case False
      from Cons.prems(1) z have "if rv then f z \<le> f y else f y \<le> f z" by auto
      with False show ?thesis by (auto split: if_splits)
    qed
  qed
  from Cons.prems(1) have "sorted_wrt (\<lambda>a b. if rv then f b \<le> f a else f a \<le> f b) ys" by simp
  from Cons.IH[OF this tl] hd show ?case by simp
qed

lemma sort_passes_append:
  "sort_passes (ps @ qs) dc rows =
     (case sort_passes ps dc rows of Inl e \<Rightarrow> Inl e | Inr mid \<Rightarrow> sort_passes qs dc mid)"
  by (induction ps dc rows rule: sort_passes.induct) (auto split: sum.splits)

lemma sort_passes_enumerate:
  assumes "\<forall>r\<in>set rows. n + length cs \<le> length r"
  shows "\<exists>out. sort_passes (rev (enumerate n cs)) dc rows = Inr out \<and> mset out = mset rows \<and>
           sorted_wrt (\<lambda>r s. lex_le (directions cs dc) (drop n r) (drop n s)) out \<and>
           (\<forall>key. filter (\<lambda>r. take (length cs) (drop n r) = key) out
                 = filter (\<lambda>r. take (length cs) (drop n r) = key) rows)"
  using assms
proof (induction cs arbitrary: n)
  case Nil
  then show ?case by (simp add: directions_def)
next
  case (Cons c cs)
  let ?d = "c \<in> set dc"
  let ?ds = "directions cs dc"
  let ?f = "\<lambda>r::'a list. r ! n"
  let ?R = "\<lambda>r s. lex_le ?ds (drop (Suc n) r) (drop (Suc n) s)"
  from Cons.prems have len: "\<forall>r\<in>set rows. Suc n + length cs \<le> length r" by simp
  from Cons.IH[OF len] obtain mid where
    mid: "sort_passes (rev (enumerate (Suc n) cs)) dc rows = Inr mid"
    and mmid: "mset mid = mset rows"
    and smid: "sorted_wrt ?R mid"
    and fmid: "\<And>key. filter (\<lambda>r. take (length cs) (drop (Suc n) r) = key) mid
                 = filter (\<lambda>r. take (length cs) (drop (Suc n) r) = key) rows"
    by blast
  from mmid have setmid: "set mid = set rows" by (rule mset_eq_setD)
  with len have lt: "\<forall>r\<in>set mid. n < length r" by auto
  let ?out = "stable_sort ?f ?d mid"
  have pass: "py_sorted (itemgetter n) ?d mid = Inr ?out"
    by (rule py_sorted_total) (use lt in \<open>simp add: itemgetter_def\<close>)
  have run: "sort_passes (rev (enumerate n (c # cs))) dc rows = Inr ?out"
    using mid pass by (simp add: sort_passes_append)
  have m: "mset ?out = mset rows" using mmid by (simp add: stable_sort_mset)
  have setout: "set ?out = set rows" using setmid by (simp add: stable_sort_set)
  have "\<And>v. sorted_wrt ?R (filter (\<lambda>y. ?f y = v) ?out)"
    using smid by (simp add: stable_sort_filter sorted_wrt_filter)
  from sorted_lex_step[OF stable_sort_sorted this]
  have st: "sorted_wrt (\<lambda>a b. if ?f a = ?f b then ?R a b else if ?d then ?f b < ?f a else ?f a < ?f b) ?out" .
  have s: "sorted_wrt (\<lambda>r s. lex_le (directions (c # cs) dc) (drop n r) (drop n s)) ?out"
  proof (rule sorted_wrt_mono_rel[OF _ st])
    fix r s assume r: "r \<in> set ?out" and s: "s \<in> set ?out"
      and h: "if r ! n = s ! n then ?R r s else if ?d then s ! n < r ! n else r ! n < s ! n"
    from r s setout Cons.prems have "n < length r" "n < length s" by auto
    then have "drop n r = r ! n # drop (Suc n) r" "drop n s = s ! n # drop (Suc n) s"
      by (simp_all add: Cons_nth_drop_Suc)
    with h show "lex_le (directions (c # cs) dc) (drop n r) (drop n s)"
      by (auto simp add: directions_def split: if_splits)
  qed
  have f: "\<forall>key. filter (\<lambda>r. take (length (c # cs)) (drop n r) = key) ?out
                 = filter (\<lambda>r. take (length (c # cs)) (drop n r) = key) rows"
  proof
    fix key
    have eq: "\<And>xs. set xs = set rows \<Longrightarrow>
             filter (\<lambda>r. take (length (c # cs)) (drop n r) = key) xs =
             (case key of [] \<Rightarrow> [] | v # key' \<Rightarrow>
                filter (\<lambda>r. take (length cs) (drop (Suc n) r) = key') (filter (\<lambda>r. r ! n = v) xs))"
    proof -
      fix xs :: "'a list list" assume sx: "set xs = set rows"
      have "\<And>r. r \<in> set xs \<Longrightarrow> take (length (c # cs)) (drop n r) = r ! n # take (length cs) (drop (Suc n) r)"
      proof -
        fix r assume "r \<in> set xs"
        with sx Cons.prems have "n < length r" by auto
        then have "drop n r = r ! n # drop (Suc n) r" by (simp add: Cons_nth_drop_Suc)
        then show "take (length (c # cs)) (drop n r) = r ! n # take (length cs) (drop (Suc n) r)" by simp
      qed
      then have "filter (\<lambda>r. take (length (c # cs)) (drop n r) = key) xs =
             filter (\<lambda>r. r ! n # take (length cs) (drop (Suc n) r) = key) xs"
        by (intro filter_cong) simp_all
      then show "filter (\<lambda>r. take (length (c # cs)) (drop n r) = key) xs =
             (case key of [] \<Rightarrow> [] | v # key' \<Rightarrow>
                filter (\<lambda>r. take (length cs) (drop (Suc n) r) = key') (filter (\<lambda>r. r ! n = v) xs))"
        by (cases key) (simp_all add: conj_commute)
    qed
    show "filter (\<lambda>r. take (length (c # cs)) (drop n r) = key) ?out
                 = filter (\<lambda>r. take (length (c # cs)) (drop n r) = key) rows"
    proof (cases key)
      case Nil
      then show ?thesis using eq[OF setout] eq[OF refl] by simp
    next
      case (Cons v key')
      have "filter (\<lambda>r. take (length cs) (drop (Suc n) r) = key') (filter (\<lambda>r. r ! n = v) ?out)
          = filter (\<lambda>r. take (length cs) (drop (Suc n) r) = key') (filter (\<lambda>r. r ! n = v) mid)"
        by (simp add: stable_sort_filter)
      also have "\<dots> = filter (\<lambda>r. r ! n = v) (filter (\<lambda>r. take (length cs) (drop (Suc n) r) = key') mid)"
        by (simp add: conj_commute)
      also have "\<dots> = filter (\<lambda>r. r ! n = v) (filter (\<lambda>r. take (length cs) (drop (Suc n) r) = key') rows)"
        by (simp only: fmid)
      also have "\<dots> = filter (\<lambda>r. take (length cs) (drop (Suc n) r) = key') (filter (\<lambda>r. r ! n = v) rows)"
        by (simp add: conj_commute)
      finally show ?thesis using eq[OF setout] eq[OF refl] Cons by simp
    qed
  qed
  from run m s f show ?case by blast
qed

text \<open>
  C1. When every row holds the \<open>k\<close> leading sort columns, \<open>sort_row_list_by_columns\<close>
  returns a rearrangement of the rows that is non-decreasing in the lexicographic order
  over those columns, each compared in its declared direction, and rows equal on all
  \<open>k\<close> columns keep their original relative order. With no sort columns the rows come
  back as they were.
\<close>

theorem sort_row_list_by_columns_lexicographic_stable:
  "sort_row_list_by_columns row_list [] desc_columns = Inr row_list \<and>
   ((\<forall>r\<in>set row_list. length sort_columns \<le> length r) \<longrightarrow>
     (\<exists>out. sort_row_list_by_columns row_list sort_columns desc_columns = Inr out \<and>
        mset out = mset row_list \<and>
        sorted_wrt (lex_le (directions sort_columns desc_columns)) out \<and>
        (\<forall>key. filter (\<lambda>r. take (length sort_columns) r = key) out
             = filter (\<lambda>r. take (length sort_columns) r = key) row_list)))"
proof (intro conjI impI)
  show "sort_row_list_by_columns row_list [] desc_columns = Inr row_list"
    by (simp add: sort_row_list_by_columns_def)
next
  assume "\<forall>r\<in>set row_list. length sort_columns \<le> length r"
  then have "\<forall>r\<in>set row_list. 0 + length sort_columns \<le> length r" by simp
  from sort_passes_enumerate[OF this, of desc_columns]
  show "\<exists>out. sort_row_list_by_columns row_list sort_columns desc_columns = Inr out \<and>
        mset out = mset row_list \<and>
        sorted_wrt (lex_le (directions sort_columns desc_columns)) out \<and>
        (\<forall>key. filter (\<lambda>r. take (length sort_columns) r = key) out
             = filter (\<lambda>r. take (length sort_columns) r = key) row_list)"
    by (simp add: sort_row_list_by_columns_def)
qed

theorem sort_row_list_by_columns_lexicographic_stable_witness:
  "sort_row_list_by_columns [[1, 0, 10], [2, 1, 20], [2, 0, 5], [1, 0, 7 :: int]] [''a'', ''b''] [''a'']
     = Inr [[2, 0, 5], [2, 1, 20], [1, 0, 10], [1, 0, 7]] \<and>
   sorted_wrt (lex_le [True, False]) [[2, 0, 5], [2, 1, 20], [1, 0, 10], [1, 0, 7 :: int]]"
proof -
  let ?rows = "[[1, 0, 10], [2, 1, 20], [2, 0, 5], [1, 0, 7 :: int]]"
  have h: "\<forall>r\<in>set ?rows. length [''a'', ''b''] \<le> length r" by simp
  from sort_row_list_by_columns_lexicographic_stable[of ?rows "[''a'']" "[''a'', ''b'']"] h
  obtain out where o: "sort_row_list_by_columns ?rows [''a'', ''b''] [''a''] = Inr out"
    and s: "sorted_wrt (lex_le (directions [''a'', ''b''] [''a''])) out"
    by blast
  have e: "sort_row_list_by_columns ?rows [''a'', ''b''] [''a'']
             = Inr [[2, 0, 5], [2, 1, 20], [1, 0, 10], [1, 0, 7]]"
    by code_simp
  have d: "directions [''a'', ''b''] [''a''] = [True, False]"
    by (simp add: directions_def)
  from o e have "out = [[2, 0, 5], [2, 1, 20], [1, 0, 10], [1, 0, 7]]" by simp
  with s d e show ?thesis by simp
qed

lemma sort_passes_directions:
  "map (\<lambda>(i, c). (i, c \<in> set dc)) ps = map (\<lambda>(i, c). (i, c \<in> set dc')) ps' \<Longrightarrow>
   sort_passes ps dc rows = sort_passes ps' dc' rows"
proof (induction ps arbitrary: ps' rows)
  case Nil
  then show ?case by simp
next
  case (Cons p ps)
  then obtain p' qs where ps': "ps' = p' # qs" by (cases ps') auto
  obtain i c where p: "p = (i, c)" by (cases p)
  obtain i' c' where p': "p' = (i', c')" by (cases p')
  from Cons.prems ps' p p' have hd: "i = i'" "(c \<in> set dc) = (c' \<in> set dc')"
    and tl: "map (\<lambda>(i, c). (i, c \<in> set dc)) ps = map (\<lambda>(i, c). (i, c \<in> set dc')) qs"
    by simp_all
  show ?case using Cons.IH[OF tl] hd by (simp add: ps' p p' split: sum.splits)
qed

lemma enumerate_directions:
  "map (\<lambda>(i, c). (i, c \<in> set dc)) (rev (enumerate 0 sc))
     = rev (zip [0..<length sc] (directions sc dc))"
  by (simp add: enumerate_eq_zip rev_map zip_map2 directions_def)

lemma sort_by_directions:
  "directions sc dc = directions sc' dc' \<Longrightarrow>
   sort_row_list_by_columns rows sc dc = sort_row_list_by_columns rows sc' dc'"
proof -
  assume d: "directions sc dc = directions sc' dc'"
  then have "length sc = length sc'"
    by (metis directions_def length_map)
  with d have "map (\<lambda>(i, c). (i, c \<in> set dc)) (rev (enumerate 0 sc))
        = map (\<lambda>(i, c). (i, c \<in> set dc')) (rev (enumerate 0 sc'))"
    by (simp only: enumerate_directions)
  then show ?thesis
    unfolding sort_row_list_by_columns_def by (rule sort_passes_directions)
qed

lemma sort_positions_from_set: "set (sort_positions_from n ds rows) = set rows"
  by (induction ds arbitrary: n) (simp_all add: stable_sort_set)

lemma sort_passes_positions:
  assumes "\<forall>r\<in>set rows. n + length cs \<le> length r"
  shows "sort_passes (rev (enumerate n cs)) dc rows
           = Inr (sort_positions_from n (directions cs dc) rows)"
  using assms
proof (induction cs arbitrary: n)
  case Nil
  then show ?case by (simp add: directions_def)
next
  case (Cons c cs)
  let ?mid = "sort_positions_from (Suc n) (directions cs dc) rows"
  from Cons.prems have len: "\<forall>r\<in>set rows. Suc n + length cs \<le> length r" by simp
  have mid: "sort_passes (rev (enumerate (Suc n) cs)) dc rows = Inr ?mid"
    by (rule Cons.IH[OF len])
  have "\<forall>r\<in>set ?mid. itemgetter n r = Inr (r ! n)"
    using Cons.prems by (auto simp add: sort_positions_from_set itemgetter_def)
  then have pass: "py_sorted (itemgetter n) (c \<in> set dc) ?mid
                     = Inr (stable_sort (\<lambda>r. r ! n) (c \<in> set dc) ?mid)"
    by (rule py_sorted_total)
  have d: "directions (c # cs) dc = (c \<in> set dc) # directions cs dc"
    by (simp add: directions_def)
  show ?case using mid pass by (simp add: sort_passes_append d)
qed

text \<open>
  C10. The key of pass \<open>i\<close> is the row element at position \<open>i\<close>, the index of the entry
  in \<open>sort_columns\<close>; the entry itself is only tested for membership in \<open>desc_columns\<close>.
  On rows that hold the sort columns the result is the stable sort by position 0 of the
  stable sort by position 1 of ..., each in the direction of its entry. So two column
  lists of the same length whose entries agree, position by position, on being descending
  sort every row list alike, whatever the entries are.
\<close>

theorem sort_row_list_by_columns_keys_are_positions:
  "((\<forall>r\<in>set row_list. length sort_columns \<le> length r) \<longrightarrow>
      sort_row_list_by_columns row_list sort_columns desc_columns
        = Inr (sort_positions_from 0 (directions sort_columns desc_columns) row_list)) \<and>
   (length sort_columns = length sort_columns' \<longrightarrow>
    (\<forall>i<length sort_columns.
        (sort_columns ! i \<in> set desc_columns) = (sort_columns' ! i \<in> set desc_columns')) \<longrightarrow>
    sort_row_list_by_columns row_list sort_columns desc_columns
      = sort_row_list_by_columns row_list sort_columns' desc_columns')"
proof (intro conjI impI)
  assume "\<forall>r\<in>set row_list. length sort_columns \<le> length r"
  then have "\<forall>r\<in>set row_list. 0 + length sort_columns \<le> length r" by simp
  then show "sort_row_list_by_columns row_list sort_columns desc_columns
        = Inr (sort_positions_from 0 (directions sort_columns desc_columns) row_list)"
    unfolding sort_row_list_by_columns_def by (rule sort_passes_positions)
next
  assume len: "length sort_columns = length sort_columns'"
    and agree: "\<forall>i<length sort_columns.
        (sort_columns ! i \<in> set desc_columns) = (sort_columns' ! i \<in> set desc_columns')"
  have "directions sort_columns desc_columns = directions sort_columns' desc_columns'"
    using len agree by (auto simp add: directions_def intro: nth_equalityI)
  then show "sort_row_list_by_columns row_list sort_columns desc_columns
      = sort_row_list_by_columns row_list sort_columns' desc_columns'"
    by (rule sort_by_directions)
qed

text \<open>
  The entries 2 and 1 below are not the positions the rows are sorted by: the keys are
  positions 0 (descending, as 2 is listed as descending) and 1.
\<close>

theorem sort_row_list_by_columns_keys_are_positions_witness:
  "sort_row_list_by_columns [[1, 0, 10], [2, 1, 20], [2, 0, 5 :: int]] [2, 1 :: nat] [2]
     = Inr (stable_sort (\<lambda>r. r ! 0) True
             (stable_sort (\<lambda>r. r ! 1) False [[1, 0, 10], [2, 1, 20], [2, 0, 5]])) \<and>
   stable_sort (\<lambda>r. r ! 0) True
     (stable_sort (\<lambda>r. r ! 1) False [[1, 0, 10], [2, 1, 20], [2, 0, 5 :: int]])
     = [[2, 0, 5], [2, 1, 20], [1, 0, 10]] \<and>
   sort_row_list_by_columns [[1, 0, 10], [2, 1, 20], [2, 0, 5 :: int]] [''a'', ''b''] [''a'']
     = sort_row_list_by_columns [[1, 0, 10], [2, 1, 20], [2, 0, 5]] [2, 1 :: nat] [2]"
proof -
  let ?rows = "[[1, 0, 10], [2, 1, 20], [2, 0, 5 :: int]]"
  have h: "\<forall>r\<in>set ?rows. length [2, 1 :: nat] \<le> length r" by simp
  have d: "directions [2, 1 :: nat] [2] = [True, False]" by (simp add: directions_def)
  note t = sort_row_list_by_columns_keys_are_positions
             [of ?rows "[2, 1 :: nat]" "[2]" "[''a'', ''b'']" "[''a'']"]
  from t h have 1: "sort_row_list_by_columns ?rows [2, 1 :: nat] [2]
     = Inr (sort_positions_from 0 (directions [2, 1 :: nat] [2]) ?rows)"
    by (rule conjunct1[THEN mp])
  have 2: "sort_positions_from 0 [True, False] ?rows
     = stable_sort (\<lambda>r. r ! 0) True (stable_sort (\<lambda>r. r ! 1) False ?rows)"
    by simp
  have 3: "stable_sort (\<lambda>r. r ! 0) True (stable_sort (\<lambda>r. r ! 1) False ?rows)
     = [[2, 0, 5], [2, 1, 20], [1, 0, 10]]"
    by code_simp
  have l: "length [2, 1 :: nat] = length [''a'', ''b'']" by simp
  have a: "\<forall>i<length [2, 1 :: nat].
        ([2, 1 :: nat] ! i \<in> set [2]) = ([''a'', ''b''] ! i \<in> set [''a''])"
    by (simp add: less_Suc_eq numeral_2_eq_2)
  from t l a have 4: "sort_row_list_by_columns ?rows [2, 1 :: nat] [2]
     = sort_row_list_by_columns ?rows [''a'', ''b''] [''a'']"
    by (elim conjE) simp
  from 1 2 3 4 d show ?thesis by simp
qed

subsection \<open>Rows that lack a sort column\<close>

text \<open>
  The first pass reads the last sort position, so a row shorter than \<open>sort_columns\<close>
  makes the sort raise \<open>IndexError\<close> before anything is reordered.
\<close>

lemma keys_of_itemgetter_short:
  "r \<in> set rows \<Longrightarrow> length r \<le> i \<Longrightarrow> keys_of (itemgetter i) rows = Inl IndexError"
  by (induction rows) (auto simp add: itemgetter_def split: sum.splits)

lemma sort_row_list_by_columns_short_row:
  assumes "r \<in> set row_list" and "length r < length sort_columns"
  shows "sort_row_list_by_columns row_list sort_columns desc_columns = Inl IndexError"
proof -
  from assms(2) obtain cs c where sc: "sort_columns = cs @ [c]"
    by (cases sort_columns rule: rev_cases) auto
  have "rev (enumerate 0 (cs @ [c])) = (length cs, c) # rev (enumerate 0 cs)"
    by (simp add: enumerate_append_eq)
  moreover have "keys_of (itemgetter (length cs)) row_list = Inl IndexError"
    using assms sc by (intro keys_of_itemgetter_short[of r]) simp_all
  ultimately show ?thesis
    by (simp add: sort_row_list_by_columns_def sc py_sorted_def)
qed

section \<open>Properties of the aggregate emulation\<close>

lemma sort_row_list_by_columns_sorted:
  assumes "\<forall>r\<in>set rows. length sc \<le> length r"
  shows "\<exists>out. sort_row_list_by_columns rows sc dc = Inr out \<and> mset out = mset rows \<and>
           sorted_wrt (lex_le (directions sc dc)) out \<and>
           (\<forall>key. filter (\<lambda>r. take (length sc) r = key) out
                 = filter (\<lambda>r. take (length sc) r = key) rows)"
proof -
  from assms have "\<forall>r\<in>set rows. 0 + length sc \<le> length r" by simp
  from sort_passes_enumerate[OF this, of dc] show ?thesis
    by (simp add: sort_row_list_by_columns_def)
qed

lemma order_columns_desc_asc:
  "order_columns [Seq [''a'', ''desc''], Bare ''b''] [] [] = Inr ([''a'', ''b''], [''a''])"
  by code_simp

text \<open>
  C5, as the code has it. With the order specification \<open>[("a", "desc"), "b"]\<close>, rows
  that hold the two leading sort columns and a limit that is not negative,
  \<open>fetch_aggregate\<close> sorts the rows by their position 0 (column \<open>a\<close>) descending, ties
  broken by position 1 (column \<open>b\<close>) ascending and then by original order, keeps the
  first \<open>limit\<close> rows and drops the two leading positions from each.
\<close>

theorem fetch_aggregate_desc_then_asc:
  assumes "\<forall>r\<in>set rows. 2 \<le> length r" and "0 \<le> limit"
  shows "\<exists>srt. fetch_aggregate rows [Seq [''a'', ''desc''], Bare ''b''] limit
                 = Inr (map (drop 2) (take (nat limit) srt)) \<and>
               mset srt = mset rows \<and>
               sorted_wrt (lex_le [True, False]) srt \<and>
               (\<forall>key. filter (\<lambda>r. take 2 r = key) srt = filter (\<lambda>r. take 2 r = key) rows)"
proof -
  have two: "length [''a'', ''b''] = 2" by simp
  from assms(1) have "\<forall>r\<in>set rows. length [''a'', ''b''] \<le> length r"
    by (simp only: two)
  from sort_row_list_by_columns_sorted[OF this, of "[''a'']"]
  obtain srt where run: "sort_row_list_by_columns rows [''a'', ''b''] [''a''] = Inr srt"
    and m: "mset srt = mset rows"
    and s: "sorted_wrt (lex_le (directions [''a'', ''b''] [''a''])) srt"
    and f: "\<forall>key. filter (\<lambda>r. take (length [''a'', ''b'']) r = key) srt
                 = filter (\<lambda>r. take (length [''a'', ''b'']) r = key) rows"
    by blast
  have d: "directions [''a'', ''b''] [''a''] = [True, False]"
    by (simp add: directions_def)
  have "fetch_aggregate rows [Seq [''a'', ''desc''], Bare ''b''] limit
          = Inr (map (drop 2) (take (nat limit) srt))"
    using run assms(2)
    by (simp add: fetch_aggregate_def order_columns_desc_asc slice_to_def numeral_2_eq_2
          del: order_columns.simps)
  with m s f[unfolded two] d show ?thesis by auto
qed

theorem fetch_aggregate_desc_then_asc_witness:
  "(\<exists>srt. fetch_aggregate [[1, 0, 10], [2, 1, 20], [2, 0, 5 :: int]]
             [Seq [''a'', ''desc''], Bare ''b''] 2 = Inr (map (drop 2) (take 2 srt)) \<and>
          mset srt = mset [[1, 0, 10], [2, 1, 20], [2, 0, 5]] \<and>
          sorted_wrt (lex_le [True, False]) srt) \<and>
   fetch_aggregate [[1, 0, 10], [2, 1, 20], [2, 0, 5 :: int]] [Seq [''a'', ''desc''], Bare ''b''] 2
     = Inr [[5], [20]]"
proof -
  let ?rows = "[[1, 0, 10], [2, 1, 20], [2, 0, 5 :: int]]"
  have h: "\<forall>r\<in>set ?rows. 2 \<le> length r" by simp
  have l: "(0::int) \<le> 2" by simp
  have e: "fetch_aggregate ?rows [Seq [''a'', ''desc''], Bare ''b''] 2 = Inr [[5], [20]]"
    by code_simp
  from fetch_aggregate_desc_then_asc[OF h l]
  obtain srt where
    "fetch_aggregate ?rows [Seq [''a'', ''desc''], Bare ''b''] 2
          = Inr (map (drop 2) (take (nat 2) srt))"
    "mset srt = mset ?rows" "sorted_wrt (lex_le [True, False]) srt"
    by blast
  then have "\<exists>srt. fetch_aggregate ?rows [Seq [''a'', ''desc''], Bare ''b''] 2
                  = Inr (map (drop 2) (take 2 srt)) \<and>
               mset srt = mset ?rows \<and> sorted_wrt (lex_le [True, False]) srt"
    by (intro exI[of _ srt]) simp
  with e show ?thesis by blast
qed

theorem fetch_aggregate_desc_then_asc_counterexample:
  "fetch_aggregate [[1, 0, 10], [2, 1, 20 :: int]] [Seq [''a'', ''desc''], Seq [''b'']] 2
     = Inl IndexError \<and>
   fetch_aggregate [[1, 0, 10], [2, 1, 20 :: int]] [Seq [''a'', ''desc''], Bare ''b''] 2
     = Inr [[20], [10]]"
  by code_simp

text \<open>
  C6, as the code has it. With an empty order specification and a limit from 0 to
  \<open>sys.maxsize\<close>, \<open>fetch_aggregate\<close> returns the first \<open>limit\<close> rows in their order, each
  row whole. Any other limit is refused by \<open>islice\<close> with \<open>ValueError\<close>.
\<close>

theorem fetch_aggregate_empty_order:
  "(0 \<le> limit \<and> limit \<le> sys_maxsize \<longrightarrow>
      fetch_aggregate rows [] limit = Inr (take (nat limit) rows)) \<and>
   (limit < 0 \<or> sys_maxsize < limit \<longrightarrow> fetch_aggregate rows [] limit = Inl ValueError)"
  by (auto simp add: fetch_aggregate_def islice_def)

theorem fetch_aggregate_empty_order_witness:
  "fetch_aggregate [[3, 1], [1, 2], [2, 0 :: int]] [] 2 = Inr [[3, 1], [1, 2]] \<and>
   fetch_aggregate [[3, 1], [1, 2], [2, 0 :: int]] [] (2 ^ 63) = Inl ValueError"
proof -
  have a: "(0 :: int) \<le> 2 \<and> 2 \<le> sys_maxsize" by (simp add: sys_maxsize_def)
  have b: "(2 :: int) ^ 63 < 0 \<or> sys_maxsize < 2 ^ 63" by (simp add: sys_maxsize_def)
  from fetch_aggregate_empty_order[of 2 "[[3, 1], [1, 2], [2, 0 :: int]]"] a
  have 1: "fetch_aggregate [[3, 1], [1, 2], [2, 0 :: int]] [] 2
             = Inr (take (nat 2) [[3, 1], [1, 2], [2, 0]])"
    by (elim conjE) simp
  from fetch_aggregate_empty_order[of "2 ^ 63" "[[3, 1], [1, 2], [2, 0 :: int]]"] b
  have 2: "fetch_aggregate [[3, 1], [1, 2], [2, 0 :: int]] [] (2 ^ 63) = Inl ValueError"
    by (elim conjE) simp
  from 1 2 show ?thesis by simp
qed

theorem fetch_aggregate_empty_order_counterexample:
  "fetch_aggregate [[3, 1], [1, 2], [2, 0 :: int]] [] (- 1) = Inl ValueError"
  by (simp add: fetch_aggregate_def islice_def)

section \<open>Properties of the statement classification\<close>

text \<open>
  The regular expression matches exactly the texts that begin, after leading whitespace
  and ignoring case, with a write keyword; and no such text is a transaction directive.
\<close>

lemma write_keywords_code_points:
  "write_keywords = [[105, 110, 115, 101, 114, 116], [117, 112, 100, 97, 116, 101],
                     [100, 101, 108, 101, 116, 101]]"
  by code_simp

lemma transaction_directives_code_points:
  "[unicode_of ''begin'', unicode_of ''commit'', unicode_of ''rollback'']
     = [[98, 101, 103, 105, 110], [99, 111, 109, 109, 105, 116],
        [114, 111, 108, 108, 98, 97, 99, 107]]"
  by code_simp

lemma match_ignorecase_iff:
  "match_ignorecase kw s \<longleftrightarrow> (\<exists>w rest. s = w @ rest \<and> list_all2 ignorecase_matches kw w)"
proof (induction kw s rule: match_ignorecase.induct)
  case (1 s)
  then show ?case by simp
next
  case (2 p ps)
  then show ?case by (simp add: list_all2_Cons1)
next
  case (3 p ps c cs)
  show ?case
  proof
    assume "match_ignorecase (p # ps) (c # cs)"
    then have pc: "ignorecase_matches p c" and "match_ignorecase ps cs" by simp_all
    with 3 obtain w rest where cs: "cs = w @ rest" and w: "list_all2 ignorecase_matches ps w"
      by blast
    from pc w have "list_all2 ignorecase_matches (p # ps) (c # w)" by simp
    moreover from cs have "c # cs = (c # w) @ rest" by simp
    ultimately show "\<exists>w rest. c # cs = w @ rest \<and> list_all2 ignorecase_matches (p # ps) w"
      by blast
  next
    assume "\<exists>w rest. c # cs = w @ rest \<and> list_all2 ignorecase_matches (p # ps) w"
    then obtain w rest where e: "c # cs = w @ rest"
      and w: "list_all2 ignorecase_matches (p # ps) w" by blast
    from w obtain c' w' where w': "w = c' # w'" and pc: "ignorecase_matches p c'"
      and t: "list_all2 ignorecase_matches ps w'"
      by (auto simp add: list_all2_Cons1)
    from e w' have "c' = c" and "cs = w' @ rest" by simp_all
    with pc t 3 show "match_ignorecase (p # ps) (c # cs)" by auto
  qed
qed

lemma keyword_head_class:
  "ignorecase_matches p c \<Longrightarrow> p \<in> {105, 117, 100} \<Longrightarrow>
   c \<in> {105, 73, 304, 305, 117, 85, 100, 68}"
  by (auto simp add: ignorecase_matches_def)

lemma keyword_head_not_space:
  "c \<in> {105, 73, 304, 305, 117, 85, 100, 68} \<Longrightarrow> \<not> is_space c"
  by (auto simp add: is_space_def)

lemma keyword_head_lower:
  "c \<in> {105, 73, 304, 305, 117, 85, 100, 68} \<Longrightarrow> lower_ascii c \<notin> {98, 99, 114}"
  by (auto simp add: lower_ascii_def)

lemma keyword_head:
  assumes "keyword \<in> set write_keywords" and "list_all2 ignorecase_matches keyword w"
  shows "\<exists>c w'. w = c # w' \<and> c \<in> {105, 73, 304, 305, 117, 85, 100, 68}"
proof -
  from assms(1) obtain p ps where k: "keyword = p # ps" and p: "p \<in> {105, 117, 100}"
    unfolding write_keywords_code_points by auto
  from assms(2) k obtain c w' where w: "w = c # w'" and pc: "ignorecase_matches p c"
    by (auto simp add: list_all2_Cons1)
  from pc p have "c \<in> {105, 73, 304, 305, 117, 85, 100, 68}" by (rule keyword_head_class)
  with w show ?thesis by blast
qed

lemma write_sql_pattern_match_iff:
  "write_sql_pattern_match sql \<longleftrightarrow> begins_with_write_keyword sql"
proof
  assume m: "write_sql_pattern_match sql"
  let ?rest = "dropWhile is_space sql"
  from m obtain keyword where kw: "keyword \<in> set write_keywords"
    and mk: "match_ignorecase keyword ?rest"
    by (auto simp add: write_sql_pattern_match_def Let_def list_ex_iff)
  from mk obtain w rest
    where r: "?rest = w @ rest" and w: "list_all2 ignorecase_matches keyword w"
    unfolding match_ignorecase_iff by blast
  have "sql = takeWhile is_space sql @ ?rest" by simp
  with r have a: "sql = takeWhile is_space sql @ w @ rest" by simp
  have b: "\<forall>c\<in>set (takeWhile is_space sql). is_space c"
    by (auto dest: set_takeWhileD)
  show "begins_with_write_keyword sql"
    unfolding begins_with_write_keyword_def
  proof (intro exI conjI)
    show "sql = takeWhile is_space sql @ w @ rest" by (rule a)
    show "\<forall>c\<in>set (takeWhile is_space sql). is_space c" by (rule b)
    show "keyword \<in> set write_keywords" by (rule kw)
    show "list_all2 ignorecase_matches keyword w" by (rule w)
  qed
next
  assume "begins_with_write_keyword sql"
  then obtain ws w rest keyword where sql: "sql = ws @ w @ rest"
    and ws: "\<forall>c\<in>set ws. is_space c"
    and kw: "keyword \<in> set write_keywords"
    and w: "list_all2 ignorecase_matches keyword w"
    unfolding begins_with_write_keyword_def by (elim exE conjE)
  from keyword_head[OF kw w] obtain c w' where cw: "w = c # w'"
    and c: "c \<in> {105, 73, 304, 305, 117, 85, 100, 68}"
    by (elim exE conjE)
  from c have "\<not> is_space c" by (rule keyword_head_not_space)
  moreover from ws have "dropWhile is_space (ws @ w @ rest) = dropWhile is_space (w @ rest)"
    by (intro dropWhile_append2) simp
  ultimately have d: "dropWhile is_space sql = w @ rest"
    by (simp only: sql cw append_Cons dropWhile.simps if_False)
  from w have "match_ignorecase keyword (w @ rest)"
    unfolding match_ignorecase_iff by blast
  with kw have "list_ex (\<lambda>keyword. match_ignorecase keyword (w @ rest)) write_keywords"
    unfolding list_ex_iff by (rule bexI[rotated])
  then show "write_sql_pattern_match sql"
    by (simp only: write_sql_pattern_match_def Let_def d)
qed

lemma write_sql_not_transaction:
  assumes "write_sql_pattern_match sql"
  shows "\<not> handle_transaction_sql sql"
proof -
  let ?rest = "dropWhile is_space sql"
  from assms obtain keyword where kw: "keyword \<in> set write_keywords"
    and mk: "match_ignorecase keyword ?rest"
    by (auto simp add: write_sql_pattern_match_def Let_def list_ex_iff)
  from mk obtain w rest
    where r: "?rest = w @ rest" and w: "list_all2 ignorecase_matches keyword w"
    unfolding match_ignorecase_iff by blast
  from keyword_head[OF kw w] obtain c w' where cw: "w = c # w'"
    and c: "c \<in> {105, 73, 304, 305, 117, 85, 100, 68}"
    by (elim exE conjE)
  from c have ns: "\<not> is_space c" by (rule keyword_head_not_space)
  from c have lc: "lower_ascii c \<notin> {98, 99, 114}" by (rule keyword_head_lower)
  from r cw ns have "\<exists>t. map lower_ascii (leading_token sql) = lower_ascii c # t"
    by (simp add: leading_token_def)
  then obtain t where t: "map lower_ascii (leading_token sql) = lower_ascii c # t" ..
  from lc show ?thesis
    unfolding handle_transaction_sql_def transaction_directives_code_points t by auto
qed

text \<open>The classification of a given statement text is computed with these rules.\<close>

lemmas classify_eval =
  write_sql_pattern_match_def write_keywords_def unicode_of_def is_space_def
  ignorecase_matches_def handle_transaction_sql_def leading_token_def lower_ascii_def

section \<open>Properties of the cursors\<close>

lemma clear_list_state_scope [simp]:
  "writable (clear_list_state self) = writable self"
  "keyspace (clear_list_state self) = keyspace self"
  "tablet_type (clear_list_state self) = tablet_type self"
  "keyspace_ids (clear_list_state self) = keyspace_ids self"
  "keyranges (clear_list_state self) = keyranges self"
  "effective_caller_id (clear_list_state self) = effective_caller_id self"
  "result_sets (clear_list_state self) = result_sets self"
  "result_set_index (clear_list_state self) = result_set_index self"
  by (simp_all add: clear_list_state_def)

text \<open>
  C2. On a cursor that is not writable, \<open>execute\<close> raises the policy error, carrying the
  statement text, for every text that begins with a write keyword, and hands nothing to
  the connection. For every other text it raises no error of its own: the statement goes
  to the transaction handler or to \<open>_execute\<close>, whose answer is stored and whose error, if
  it raises, is passed on.
\<close>

theorem execute_on_non_writable_cursor:
  assumes "\<not> writable self"
  shows "(begins_with_write_keyword sql \<longrightarrow>
            VTGateCursor_execute conn self sql bind_variables
              = (Inl (DatabaseError [unicode_of ''DML on a non-writable cursor'', sql]),
                 clear_list_state self, [])) \<and>
         (\<not> begins_with_write_keyword sql \<longrightarrow>
            VTGateCursor_execute conn self sql bind_variables
              = (if handle_transaction_sql sql
                 then (Inr PyNone, clear_list_state self, [TransactionHandler sql])
                 else
                   let args = (sql, bind_variables, keyspace self, tablet_type self,
                               keyspace_ids self, keyranges self, True,
                               effective_caller_id self)
                   in case conn_execute conn args of
                        Inl e \<Rightarrow> (Inl e, clear_list_state self, [Execute args])
                      | Inr (res, rc, lid, descr) \<Rightarrow>
                          (Inr rc,
                           (clear_list_state self)\<lparr>results := res, rowcount := rc,
                              lastrowid := lid, description := descr\<rparr>,
                           [Execute args])))"
proof (intro conjI impI)
  assume "begins_with_write_keyword sql"
  then have w: "write_sql_pattern_match sql" by (simp add: write_sql_pattern_match_iff)
  then have "\<not> handle_transaction_sql sql" by (rule write_sql_not_transaction)
  with w assms show "VTGateCursor_execute conn self sql bind_variables
              = (Inl (DatabaseError [unicode_of ''DML on a non-writable cursor'', sql]),
                 clear_list_state self, [])"
    by (simp add: VTGateCursor_execute_def is_writable_def)
next
  assume "\<not> begins_with_write_keyword sql"
  then have "\<not> write_sql_pattern_match sql" by (simp add: write_sql_pattern_match_iff)
  with assms show "VTGateCursor_execute conn self sql bind_variables
              = (if handle_transaction_sql sql
                 then (Inr PyNone, clear_list_state self, [TransactionHandler sql])
                 else
                   let args = (sql, bind_variables, keyspace self, tablet_type self,
                               keyspace_ids self, keyranges self, True,
                               effective_caller_id self)
                   in case conn_execute conn args of
                        Inl e \<Rightarrow> (Inl e, clear_list_state self, [Execute args])
                      | Inr (res, rc, lid, descr) \<Rightarrow>
                          (Inr rc,
                           (clear_list_state self)\<lparr>results := res, rowcount := rc,
                              lastrowid := lid, description := descr\<rparr>,
                           [Execute args]))"
    by (simp add: VTGateCursor_execute_def is_writable_def Let_def)
qed

lemma example_cursor_writable [simp]: "writable (example_cursor w) = w"
  by (simp add: example_cursor_def VTGateCursor_init_def clear_batch_state_def)

text \<open>
  A write in mixed case after blanks, a write after the separator U+001C (which \<open>\s\<close>
  matches), and a write spelled with U+017F (which matches \<open>s\<close> when case is ignored) are
  all refused; a read goes to the connection.
\<close>

theorem execute_on_non_writable_cursor_witness:
  "VTGateCursor_execute example_connection (example_cursor False)
      (unicode_of ''  InSeRt into t values (1)'') (PyDict [])
     = (Inl (DatabaseError [unicode_of ''DML on a non-writable cursor'',
                            unicode_of ''  InSeRt into t values (1)'']),
        clear_list_state (example_cursor False), []) \<and>
   VTGateCursor_execute example_connection (example_cursor False)
      (28 # unicode_of ''insert into t'') (PyDict [])
     = (Inl (DatabaseError [unicode_of ''DML on a non-writable cursor'',
                            28 # unicode_of ''insert into t'']),
        clear_list_state (example_cursor False), []) \<and>
   VTGateCursor_execute example_connection (example_cursor False)
      (unicode_of ''in'' @ 383 # unicode_of ''ert into t'') (PyDict [])
     = (Inl (DatabaseError [unicode_of ''DML on a non-writable cursor'',
                            unicode_of ''in'' @ 383 # unicode_of ''ert into t'']),
        clear_list_state (example_cursor False), []) \<and>
   fst (VTGateCursor_execute example_connection (example_cursor False)
          (unicode_of ''select 1 from t'') (PyDict [])) = Inr (PyInt 1)"
proof -
  have nw: "\<not> writable (example_cursor False)" by simp
  have b1: "begins_with_write_keyword (unicode_of ''  InSeRt into t values (1)'')"
    unfolding write_sql_pattern_match_iff[symmetric] by (simp add: classify_eval)
  have b2: "begins_with_write_keyword (28 # unicode_of ''insert into t'')"
    unfolding write_sql_pattern_match_iff[symmetric] by (simp add: classify_eval)
  have b3: "begins_with_write_keyword (unicode_of ''in'' @ 383 # unicode_of ''ert into t'')"
    unfolding write_sql_pattern_match_iff[symmetric] by (simp add: classify_eval)
  have nb: "\<not> begins_with_write_keyword (unicode_of ''select 1 from t'')"
    unfolding write_sql_pattern_match_iff[symmetric] by (simp add: classify_eval)
  have nt: "\<not> handle_transaction_sql (unicode_of ''select 1 from t'')"
    by (simp add: classify_eval)
  note 1 = execute_on_non_writable_cursor[OF nw, THEN conjunct1, THEN mp, OF b1,
             of example_connection "PyDict []"]
  note 2 = execute_on_non_writable_cursor[OF nw, THEN conjunct1, THEN mp, OF b2,
             of example_connection "PyDict []"]
  note 3 = execute_on_non_writable_cursor[OF nw, THEN conjunct1, THEN mp, OF b3,
             of example_connection "PyDict []"]
  note e = execute_on_non_writable_cursor[OF nw, THEN conjunct2, THEN mp, OF nb,
             of example_connection "PyDict []"]
  have 4: "fst (VTGateCursor_execute example_connection (example_cursor False)
          (unicode_of ''select 1 from t'') (PyDict [])) = Inr (PyInt 1)"
    unfolding e using nt
    by (simp add: example_connection_def example_result_set_def Let_def)
  show ?thesis
  proof (intro conjI)
    show "VTGateCursor_execute example_connection (example_cursor False)
      (unicode_of ''  InSeRt into t values (1)'') (PyDict [])
     = (Inl (DatabaseError [unicode_of ''DML on a non-writable cursor'',
                            unicode_of ''  InSeRt into t values (1)'']),
        clear_list_state (example_cursor False), [])" by (rule 1)
    show "VTGateCursor_execute example_connection (example_cursor False)
      (28 # unicode_of ''insert into t'') (PyDict [])
     = (Inl (DatabaseError [unicode_of ''DML on a non-writable cursor'',
                            28 # unicode_of ''insert into t'']),
        clear_list_state (example_cursor False), [])" by (rule 2)
    show "VTGateCursor_execute example_connection (example_cursor False)
      (unicode_of ''in'' @ 383 # unicode_of ''ert into t'') (PyDict [])
     = (Inl (DatabaseError [unicode_of ''DML on a non-writable cursor'',
                            unicode_of ''in'' @ 383 # unicode_of ''ert into t'']),
        clear_list_state (example_cursor False), [])" by (rule 3)
    show "fst (VTGateCursor_execute example_connection (example_cursor False)
          (unicode_of ''select 1 from t'') (PyDict [])) = Inr (PyInt 1)" by (rule 4)
  qed
qed

text \<open>
  C7, as the code has it. \<open>execute_entity_ids\<close> rejects every text that begins with a
  write keyword, whether the cursor is writable or not, before anything is handed to the
  connection. The error is a \<open>DatabaseError\<close> whose only argument is a fixed message; the
  statement text is not among its arguments.
\<close>

theorem execute_entity_ids_rejects_writes:
  "begins_with_write_keyword sql \<Longrightarrow>
   execute_entity_ids conn self sql bind_variables entity_keyspace_id_map entity_column_name
     = (Inl (DatabaseError [unicode_of ''execute_entity_ids is not allowed for write queries'']),
        clear_list_state self, [])"
  by (simp add: execute_entity_ids_def write_sql_pattern_match_iff)

theorem execute_entity_ids_rejects_writes_witness:
  "execute_entity_ids example_connection (example_cursor True) (unicode_of ''update t set a = 1'')
      (PyDict []) (PyDict []) (PyStr ''id'')
     = (Inl (DatabaseError [unicode_of ''execute_entity_ids is not allowed for write queries'']),
        clear_list_state (example_cursor True), [])"
proof -
  have "begins_with_write_keyword (unicode_of ''update t set a = 1'')"
    unfolding write_sql_pattern_match_iff[symmetric] by (simp add: classify_eval)
  then show ?thesis by (rule execute_entity_ids_rejects_writes)
qed

theorem execute_entity_ids_error_counterexample:
  "fst (execute_entity_ids example_connection (example_cursor True)
          (unicode_of ''insert into t values (1)'') (PyDict []) (PyDict []) (PyStr ''id''))
     = Inl (DatabaseError [unicode_of ''execute_entity_ids is not allowed for write queries'']) \<and>
   (unicode_of ''insert into t values (1)'')
     \<notin> set [unicode_of ''execute_entity_ids is not allowed for write queries'']"
proof -
  have w: "write_sql_pattern_match (unicode_of ''insert into t values (1)'')"
    by (simp add: classify_eval)
  have n: "unicode_of ''insert into t values (1)''
     \<notin> set [unicode_of ''execute_entity_ids is not allowed for write queries'']"
    by (simp add: unicode_of_def)
  from w have "fst (execute_entity_ids example_connection (example_cursor True)
          (unicode_of ''insert into t values (1)'') (PyDict []) (PyDict []) (PyStr ''id''))
     = Inl (DatabaseError [unicode_of ''execute_entity_ids is not allowed for write queries''])"
    by (simp add: execute_entity_ids_def)
  with n show ?thesis by (rule conjI[rotated])
qed

text \<open>
  C8. A streaming cursor that is writable fails on \<open>execute\<close> with a programming error
  and hands nothing to the connection. One that is not writable calls \<open>_stream_execute\<close>
  once and, when that returns, holds the row producer and description it returned, and
  returns 0.
\<close>

theorem stream_execute_writable_or_not:
  "(writable self \<longrightarrow>
      StreamVTGateCursor_execute conn self sql bind_variables
        = (Inl (ProgrammingError [unicode_of ''Streaming query cannot be writable'']), self, [])) \<and>
   (\<not> writable self \<longrightarrow>
      (\<forall>g descr.
         conn_stream_execute conn
           (sql, bind_variables, keyspace self, tablet_type self, keyspace_ids self,
            keyranges self, True, effective_caller_id self) = Inr (g, descr) \<longrightarrow>
         StreamVTGateCursor_execute conn self sql bind_variables
           = (Inr (PyInt 0), self\<lparr>description := descr, generator := g\<rparr>,
              [StreamExecute (sql, bind_variables, keyspace self, tablet_type self,
                 keyspace_ids self, keyranges self, True, effective_caller_id self)])))"
  by (simp add: StreamVTGateCursor_execute_def clear_stream_state_def is_writable_def Let_def)

theorem stream_execute_writable_or_not_witness:
  "fst (StreamVTGateCursor_execute example_connection (example_stream_cursor True)
          (unicode_of ''select 1 from t'') (PyDict []))
     = Inl (ProgrammingError [unicode_of ''Streaming query cannot be writable'']) \<and>
   snd (snd (StreamVTGateCursor_execute example_connection (example_stream_cursor True)
          (unicode_of ''select 1 from t'') (PyDict []))) = [] \<and>
   fst (StreamVTGateCursor_execute example_connection (example_stream_cursor False)
          (unicode_of ''select 1 from t'') (PyDict [])) = Inr (PyInt 0) \<and>
   generator (fst (snd (StreamVTGateCursor_execute example_connection
          (example_stream_cursor False) (unicode_of ''select 1 from t'') (PyDict []))))
     = PyList [PyList [PyInt 9]]"
proof -
  have w: "writable (example_stream_cursor True)" "\<not> writable (example_stream_cursor False)"
    by (simp_all add: example_stream_cursor_def StreamVTGateCursor_init_def)
  have c: "conn_stream_execute example_connection
           ((unicode_of ''select 1 from t''), PyDict [], keyspace (example_stream_cursor False),
            tablet_type (example_stream_cursor False),
            keyspace_ids (example_stream_cursor False),
            keyranges (example_stream_cursor False), True,
            effective_caller_id (example_stream_cursor False))
         = Inr (PyList [PyList [PyInt 9]], PyList [PyStr ''id''])"
    by (simp add: example_connection_def)
  note 1 = stream_execute_writable_or_not[of "example_stream_cursor True" example_connection
             "unicode_of ''select 1 from t''" "PyDict []", THEN conjunct1, THEN mp, OF w(1)]
  note 2 = stream_execute_writable_or_not[of "example_stream_cursor False" example_connection
             "unicode_of ''select 1 from t''" "PyDict []", THEN conjunct2, THEN mp, OF w(2),
             THEN spec, THEN spec, THEN mp, OF c]
  from 1 2 show ?thesis by simp
qed

text \<open>
  C9. After \<open>close\<close>, whatever the cursor held, \<open>result_sets\<close> is empty and
  \<open>result_set_index\<close> is unset; closing again changes neither.
\<close>

theorem close_clears_batch_state:
  "result_sets (close self) = [] \<and> result_set_index (close self) = None \<and>
   result_sets (close (close self)) = result_sets (close self) \<and>
   result_set_index (close (close self)) = result_set_index (close self) \<and>
   close (close self) = close self"
  by (simp add: close_def clear_batch_state_def base_close_def)

subsection \<open>Batch state\<close>




lemma nextset_advance:
  assumes "(case result_set_index c of None \<Rightarrow> 0 | Some j \<Rightarrow> j + 1) = i"
    and "i < length (result_sets c)"
  shows "fst (nextset c) = PyBool True"
    and "result_set_index (snd (nextset c)) = Some i"
    and "result_sets (snd (nextset c)) = result_sets c"
  using assms
  by (simp_all add: nextset_def clear_list_state_def Let_def split: prod.split)

lemma nextset_exhausted:
  assumes "length (result_sets c) \<le> (case result_set_index c of None \<Rightarrow> 0 | Some j \<Rightarrow> j + 1)"
  shows "fst (nextset c) = PyNone"
    and "result_sets (snd (nextset c)) = []"
    and "result_set_index (snd (nextset c)) = None"
  using assms
  by (simp_all add: nextset_def clear_list_state_def clear_batch_state_def Let_def)

lemma nextsets_run:
  "result_set_index c = Some i \<Longrightarrow> i + k < length (result_sets c) \<Longrightarrow>
   fst (nextsets k c) = replicate k (PyBool True) \<and>
   result_set_index (snd (nextsets k c)) = Some (i + k) \<and>
   result_sets (snd (nextsets k c)) = result_sets c"
proof (induction k arbitrary: c i)
  case 0
  then show ?case by simp
next
  case (Suc k)
  have s: "(case result_set_index c of None \<Rightarrow> 0 | Some j \<Rightarrow> j + 1) = Suc i"
    using Suc.prems(1) by simp
  have l: "Suc i < length (result_sets c)" using Suc.prems(2) by simp
  note a = nextset_advance[OF s l]
  have "Suc i + k < length (result_sets (snd (nextset c)))"
    using Suc.prems(2) a(3) by simp
  from Suc.IH[OF a(2) this] a show ?case
    by (simp add: split_beta)
qed

lemma executemany_returns:
  assumes "executemany conn self sql params_list = (Inr v, self', [ExecuteBatch args])"
    and "conn_execute_batch conn args = Inr rs"
  shows "self' = snd (nextset ((clear_batch_state self)\<lparr>result_sets := rs\<rparr>))"
  using assms
  by (auto simp add: executemany_def Let_def split: sum.splits if_splits)

text \<open>
  C3, as the code has it. \<open>executemany\<close> performs the first advance itself and discards
  what it reports. So when the batch primitive has returned \<open>n\<close> result tuples and
  \<open>executemany\<close> has returned, the cursor stands on result set 0 (for \<open>n > 0\<close>); the
  caller's next \<open>n - 1\<close> calls of \<open>nextset\<close> report \<open>True\<close>, and the call after them reports
  \<open>None\<close> and leaves \<open>result_sets\<close> empty and \<open>result_set_index\<close> unset.
\<close>

theorem executemany_then_nextset:
  assumes "executemany conn self sql params_list = (Inr v, self', [ExecuteBatch args])"
    and "conn_execute_batch conn args = Inr rs"
  shows "(rs \<noteq> [] \<longrightarrow> result_set_index self' = Some 0 \<and> result_sets self' = rs) \<and>
         fst (nextsets (length rs - 1) self') = replicate (length rs - 1) (PyBool True) \<and>
         fst (nextset (snd (nextsets (length rs - 1) self'))) = PyNone \<and>
         result_sets (snd (nextset (snd (nextsets (length rs - 1) self')))) = [] \<and>
         result_set_index (snd (nextset (snd (nextsets (length rs - 1) self')))) = None"
proof (cases "rs = []")
  case True
  let ?c = "(clear_batch_state self)\<lparr>result_sets := rs\<rparr>"
  have self': "self' = snd (nextset ?c)" by (rule executemany_returns[OF assms])
  have "length (result_sets ?c) \<le> (case result_set_index ?c of None \<Rightarrow> 0 | Some j \<Rightarrow> j + 1)"
    using True by simp
  note a = nextset_exhausted[OF this]
  have "length (result_sets self') \<le> (case result_set_index self' of None \<Rightarrow> 0 | Some j \<Rightarrow> j + 1)"
    using a by (simp add: self')
  note b = nextset_exhausted[OF this]
  from True b show ?thesis by simp
next
  case False
  let ?c = "(clear_batch_state self)\<lparr>result_sets := rs\<rparr>"
  let ?k = "length rs - 1"
  have self': "self' = snd (nextset ?c)" by (rule executemany_returns[OF assms])
  have s: "(case result_set_index ?c of None \<Rightarrow> 0 | Some j \<Rightarrow> j + 1) = 0"
    by (simp add: clear_batch_state_def)
  have l: "0 < length (result_sets ?c)" using False by simp
  note a = nextset_advance[OF s l]
  have i: "result_set_index self' = Some 0" and r: "result_sets self' = rs"
    using a by (simp_all add: self')
  have "0 + ?k < length (result_sets self')" using False r by simp
  note run = nextsets_run[OF i this]
  let ?d = "snd (nextsets ?k self')"
  have "length (result_sets ?d) \<le> (case result_set_index ?d of None \<Rightarrow> 0 | Some j \<Rightarrow> j + 1)"
    using run r False by simp
  note b = nextset_exhausted[OF this]
  from i r run b show ?thesis by simp
qed

theorem executemany_then_nextset_witness:
  "fst (nextsets 1 (fst (snd (executemany example_connection (example_cursor False)
          (PyStr ''select 1 from t'') [example_params, example_params])))) = [PyBool True] \<and>
   fst (nextset (snd (nextsets 1 (fst (snd (executemany example_connection
          (example_cursor False) (PyStr ''select 1 from t'')
          [example_params, example_params])))))) = PyNone \<and>
   result_sets (snd (nextset (snd (nextsets 1 (fst (snd (executemany example_connection
          (example_cursor False) (PyStr ''select 1 from t'')
          [example_params, example_params]))))))) = []"
proof -
  let ?out = "executemany example_connection (example_cursor False)
                (PyStr ''select 1 from t'') [example_params, example_params]"
  let ?args = "([PyStr ''select 1 from t'', PyStr ''select 1 from t''], [PyDict [], PyDict []],
                [PyStr ''ks'', PyStr ''ks''], [PyList [PyStr ''k''], PyList [PyStr ''k'']],
                PyStr ''replica'', False, PyNone)"
  have 1: "fst ?out = Inr PyNone" by code_simp
  have 2: "snd (snd ?out) = [ExecuteBatch ?args]" by code_simp
  have e: "?out = (Inr PyNone, fst (snd ?out), [ExecuteBatch ?args])"
    using 1 2 by (simp add: prod_eq_iff)
  have c: "conn_execute_batch example_connection ?args
             = Inr [example_result_set 0, example_result_set 1]"
    by code_simp
  from executemany_then_nextset[OF e c] show ?thesis
    by (simp add: numeral_2_eq_2)
qed

theorem executemany_then_nextset_counterexample:
  "result_sets (fst (snd (executemany example_connection (example_cursor False)
          (PyStr ''select 1 from t'') [example_params]))) = [example_result_set 0] \<and>
   fst (nextsets 2 (fst (snd (executemany example_connection (example_cursor False)
          (PyStr ''select 1 from t'') [example_params])))) = [PyNone, PyNone]"
  by code_simp

end
